theory Spec2Isabelle
  imports Main "HOL-Library.Char_ord" "HOL-Library.List_Lexorder"
begin

section \<open>Python string primitives used by main.py\<close>

text \<open>
  A Python \<open>str\<close> is modelled as a \<open>string\<close>, one \<open>char\<close> per character. The
  character-level behaviour of \<open>str.lower\<close>, \<open>str.capitalize\<close> and \<open>str.split\<close> is the
  one Python has on ASCII text, the alphabet of \<open>string.ascii_lowercase\<close> and of the two
  word lists: \<open>A\<close>..\<open>Z\<close> and \<open>a\<close>..\<open>z\<close> are the cased letters, and the whitespace
  characters are \<open>\t \n \v \f \r\<close>, the separators \<open>0x1C\<close>..\<open>0x1F\<close> and the space.
  Characters from \<open>0x80\<close> on stand for uncased, non-space characters: the case mappings
  leave them alone. Unicode's special casing of non-ASCII letters is not part of the model.
\<close>

definition isspace :: "char \<Rightarrow> bool" where
  "isspace c = (let n = (of_char c :: nat) in (9 \<le> n \<and> n \<le> 13) \<or> (28 \<le> n \<and> n \<le> 32))"

definition lower_char :: "char \<Rightarrow> char" where
  "lower_char c = (let n = (of_char c :: nat) in if 65 \<le> n \<and> n \<le> 90 then char_of (n + 32) else c)"

definition upper_char :: "char \<Rightarrow> char" where
  "upper_char c = (let n = (of_char c :: nat) in if 97 \<le> n \<and> n \<le> 122 then char_of (n - 32) else c)"

text \<open>\<open>s.lower()\<close>\<close>

definition lower :: "string \<Rightarrow> string" where
  "lower s = map lower_char s"

text \<open>\<open>s.capitalize()\<close>: the first character in upper case, the rest in lower case.\<close>

fun capitalize :: "string \<Rightarrow> string" where
  "capitalize [] = []"
| "capitalize (c # cs) = upper_char c # lower cs"

text \<open>
  \<open>s.split()\<close> with no separator: the maximal runs of non-whitespace characters, in
  order. \<open>split_from cur s\<close> scans \<open>s\<close> with the token read so far in \<open>cur\<close>.
\<close>

fun split_from :: "string \<Rightarrow> string \<Rightarrow> string list" where
  "split_from cur [] = (if cur = [] then [] else [cur])"
| "split_from cur (c # cs) =
     (if isspace c then (if cur = [] then split_from [] cs else cur # split_from [] cs)
      else split_from (cur @ [c]) cs)"

definition split :: "string \<Rightarrow> string list" where
  "split s = split_from [] s"

text \<open>\<open>' '.join(ws)\<close>\<close>

fun join :: "string list \<Rightarrow> string" where
  "join [] = []"
| "join [w] = w"
| "join (w # ws) = w @ CHR '' '' # join ws"

text \<open>\<open>string.ascii_lowercase\<close>\<close>

definition alphabet :: string where
  "alphabet = ''abcdefghijklmnopqrstuvwxyz''"

section \<open>Phrase normalizer\<close>

text \<open>
  \<open>is_valid_phrase\<close>: the \<open>for part in parts\<close> loop with its early \<open>return False\<close> is
  \<open>parts_valid\<close>; an empty list of parts is rejected before the loop.
\<close>

fun parts_valid :: "string list \<Rightarrow> string set \<Rightarrow> bool" where
  "parts_valid [] valid_words = True"
| "parts_valid (part # parts) valid_words =
     (if lower part \<notin> valid_words then False else parts_valid parts valid_words)"

definition is_valid_phrase :: "string \<Rightarrow> string set \<Rightarrow> bool" where
  "is_valid_phrase phrase valid_words =
     (let parts = split phrase in
      if parts = [] then False else parts_valid parts valid_words)"

definition normalize_phrase :: "string \<Rightarrow> string" where
  "normalize_phrase phrase = join (map capitalize (split phrase))"

section \<open>Neighbor generator\<close>

text \<open>
  The body shared by the three loops: a candidate that passes \<open>is_valid_phrase\<close> is
  added to the set in normalized form.
\<close>

definition add_if_valid :: "string \<Rightarrow> string set \<Rightarrow> string set \<Rightarrow> string set" where
  "add_if_valid candidate valid_words neighbors =
     (if is_valid_phrase candidate valid_words
      then insert (normalize_phrase candidate) neighbors else neighbors)"

definition deletions :: "string \<Rightarrow> string set \<Rightarrow> string set \<Rightarrow> string set" where
  "deletions lower_phrase valid_words neighbors =
     fold (\<lambda>i nb. add_if_valid (take i lower_phrase @ drop (i + 1) lower_phrase) valid_words nb)
       [0 ..< length lower_phrase] neighbors"

definition substitutions :: "string \<Rightarrow> string set \<Rightarrow> string set \<Rightarrow> string set" where
  "substitutions lower_phrase valid_words neighbors =
     fold (\<lambda>i nb.
        if lower_phrase ! i = CHR '' '' then nb
        else fold (\<lambda>ch nb'.
               if ch = lower_phrase ! i then nb'
               else add_if_valid (take i lower_phrase @ ch # drop (i + 1) lower_phrase)
                      valid_words nb')
             alphabet nb)
       [0 ..< length lower_phrase] neighbors"

definition insertions :: "string \<Rightarrow> string set \<Rightarrow> string set \<Rightarrow> string set" where
  "insertions lower_phrase valid_words neighbors =
     fold (\<lambda>i nb.
        fold (\<lambda>ch nb'.
               add_if_valid (take i lower_phrase @ ch # drop i lower_phrase) valid_words nb')
             alphabet nb)
       [0 ..< length lower_phrase + 1] neighbors"

definition get_neighbors :: "string \<Rightarrow> string set \<Rightarrow> string set" where
  "get_neighbors phrase valid_words =
     (let lower_phrase = lower phrase;
          neighbors = insertions lower_phrase valid_words
                        (substitutions lower_phrase valid_words
                          (deletions lower_phrase valid_words {}));
          normalized_start = normalize_phrase phrase
      in if normalized_start \<in> neighbors then neighbors - {normalized_start} else neighbors)"

section \<open>Graph builder\<close>

text \<open>
  The \<open>networkx.DiGraph\<close> the builder fills: a set of nodes and a set of directed edges.
  \<open>add_edge\<close> also adds both end points as nodes, as the library does; adding a node or
  an edge that is already present changes nothing.
\<close>

record graph =
  nodes :: "string set"
  edges :: "(string \<times> string) set"

definition empty_graph :: graph where
  "empty_graph = \<lparr>nodes = {}, edges = {}\<rparr>"

definition add_node :: "graph \<Rightarrow> string \<Rightarrow> graph" where
  "add_node g n = g\<lparr>nodes := insert n (nodes g)\<rparr>"

definition add_edge :: "graph \<Rightarrow> string \<Rightarrow> string \<Rightarrow> graph" where
  "add_edge g u v = g\<lparr>nodes := insert v (insert u (nodes g)), edges := insert (u, v) (edges g)\<rparr>"

text \<open>
  The state of the \<open>while queue\<close> loop: the graph \<open>G\<close>, the FIFO \<open>queue\<close> of
  (phrase, depth) pairs and the dictionary \<open>visited\<close> from phrase to recorded depth. The
  field \<open>expanded\<close> is a trace that the source does not keep: the phrases on which
  \<open>get_neighbors\<close> has been called, in order of the calls.
\<close>

record bfs_state =
  G :: graph
  queue :: "(string \<times> int) list"
  visited :: "string \<rightharpoonup> int"
  expanded :: "string list"

text \<open>The body of \<open>for neighbor in neighbors\<close>.\<close>

definition visit :: "string \<Rightarrow> int \<Rightarrow> string \<Rightarrow> bfs_state \<Rightarrow> bfs_state" where
  "visit current_phrase current_depth neighbor st =
     (case visited st neighbor of
        None \<Rightarrow>
          st\<lparr>visited := (visited st)(neighbor \<mapsto> current_depth + 1),
             queue := queue st @ [(neighbor, current_depth + 1)],
             G := add_edge (G st) current_phrase neighbor\<rparr>
      | Some dn \<Rightarrow>
          if dn = current_depth + 1
          then st\<lparr>G := add_edge (G st) current_phrase neighbor\<rparr>
          else st)"

text \<open>
  One iteration of the \<open>while\<close> loop: \<open>popleft\<close>, the \<open>continue\<close> at the depth bound,
  otherwise the call of the neighbor generator and the \<open>for\<close> loop over its result.
  \<open>nbrs\<close> gives the neighbors of a phrase in the order in which the \<open>for\<close> loop
  meets them.
\<close>

definition step :: "(string \<Rightarrow> string list) \<Rightarrow> int \<Rightarrow> bfs_state \<Rightarrow> bfs_state" where
  "step nbrs depth st =
     (case queue st of
        [] \<Rightarrow> st
      | (current_phrase, current_depth) # rest \<Rightarrow>
          if current_depth \<ge> depth then st\<lparr>queue := rest\<rparr>
          else fold (visit current_phrase current_depth) (nbrs current_phrase)
                 (st\<lparr>queue := rest, expanded := expanded st @ [current_phrase]\<rparr>))"

text \<open>
  The termination measure of the loop. \<open>work nbrs k n\<close> bounds the number of iterations
  that a queue entry for \<open>n\<close> with \<open>k\<close> levels left below the depth bound can cause;
  \<open>pending\<close> adds it up over the queue.
\<close>

fun work :: "(string \<Rightarrow> string list) \<Rightarrow> nat \<Rightarrow> string \<Rightarrow> nat" where
  "work nbrs 0 n = 1"
| "work nbrs (Suc k) n = Suc (sum_list (map (work nbrs k) (nbrs n)))"

definition pending :: "(string \<Rightarrow> string list) \<Rightarrow> int \<Rightarrow> (string \<times> int) list \<Rightarrow> nat" where
  "pending nbrs depth q = sum_list (map (\<lambda>(n, d). work nbrs (nat (depth - d)) n) q)"

text \<open>The \<open>while queue\<close> loop.\<close>

function loop :: "(string \<Rightarrow> string list) \<Rightarrow> int \<Rightarrow> bfs_state \<Rightarrow> bfs_state" where
  "loop nbrs depth st = (if queue st = [] then st else loop nbrs depth (step nbrs depth st))"
  by pat_completeness auto
termination
proof (relation "measure (\<lambda>(nbrs, depth, st). pending nbrs depth (queue st))")
  show "wf (measure (\<lambda>(nbrs, depth, st). pending nbrs depth (queue st)))"
    by simp
next
  fix nbrs :: "string \<Rightarrow> string list" and depth :: int and st :: bfs_state
  assume ne: "queue st \<noteq> []"
  obtain cur d rest where q: "queue st = (cur, d) # rest"
    using ne by (cases "queue st") auto
  have grow: "pending nbrs depth (queue (fold (visit cur d) xs s))
      \<le> pending nbrs depth (queue s) + sum_list (map (work nbrs (nat (depth - (d + 1)))) xs)"
    for xs s
  proof (induction xs arbitrary: s)
    case Nil
    show ?case by simp
  next
    case (Cons x xs)
    have "pending nbrs depth (queue (visit cur d x s))
        \<le> pending nbrs depth (queue s) + work nbrs (nat (depth - (d + 1))) x"
      by (simp add: visit_def pending_def split: option.split)
    with Cons.IH [of "visit cur d x s"] show ?case
      by simp
  qed
  have "pending nbrs depth (queue (step nbrs depth st)) < pending nbrs depth (queue st)"
  proof (cases "d \<ge> depth")
    case True
    then show ?thesis
      by (simp add: step_def q pending_def)
  next
    case False
    then obtain k where k: "nat (depth - d) = Suc k" and k': "nat (depth - (d + 1)) = k"
      by (cases "nat (depth - d)") auto
    have "pending nbrs depth (queue (step nbrs depth st))
        \<le> pending nbrs depth rest + sum_list (map (work nbrs k) (nbrs cur))"
      using grow [of "nbrs cur" "st\<lparr>queue := rest, expanded := expanded st @ [cur]\<rparr>"] False
      by (simp add: step_def q k')
    also have "\<dots> < pending nbrs depth (queue st)"
      by (simp add: q pending_def k)
    finally show ?thesis .
  qed
  then show "((nbrs, depth, step nbrs depth st), (nbrs, depth, st))
      \<in> measure (\<lambda>(nbrs, depth, st). pending nbrs depth (queue st))"
    by simp
qed

declare loop.simps [simp del]

text \<open>
  \<open>generate_graph\<close>. The set of words that \<open>load_words()\<close> returns is the parameter
  \<open>valid_words\<close>; the warning printed for a start phrase that is not valid has no effect
  on the graph and is left out. Python does not fix the order in which a \<open>for\<close> loop
  goes through a set; \<open>order p S\<close> is the order in which the loop goes through the set
  \<open>S\<close> returned for the phrase \<open>p\<close>, a parameter about which the definitions assume
  nothing, and \<open>ordered_neighbors\<close> is the result of \<open>get_neighbors\<close> as the loop meets
  it. \<open>run\<close> is the state in which the loop ends, \<open>generate_graph\<close> the graph returned.
  \<open>sorted_order\<close> is one such order, used in the examples.
\<close>

definition initial_state :: "string \<Rightarrow> bfs_state" where
  "initial_state start_phrase =
     \<lparr>G = add_node empty_graph start_phrase,
      queue = [(start_phrase, 0)],
      visited = [start_phrase \<mapsto> 0],
      expanded = []\<rparr>"

definition ordered_neighbors :: "(string \<Rightarrow> string set \<Rightarrow> string list) \<Rightarrow> string set \<Rightarrow> string \<Rightarrow> string list" where
  "ordered_neighbors order valid_words phrase = order phrase (get_neighbors phrase valid_words)"

definition run :: "(string \<Rightarrow> string set \<Rightarrow> string list) \<Rightarrow> string set \<Rightarrow> string \<Rightarrow> int \<Rightarrow> bfs_state" where
  "run order valid_words start_phrase depth =
     loop (ordered_neighbors order valid_words) depth
       (initial_state (normalize_phrase start_phrase))"

definition generate_graph :: "(string \<Rightarrow> string set \<Rightarrow> string list) \<Rightarrow> string set \<Rightarrow> string \<Rightarrow> int \<Rightarrow> graph" where
  "generate_graph order valid_words start_phrase depth = G (run order valid_words start_phrase depth)"

definition sorted_order :: "string \<Rightarrow> string set \<Rightarrow> string list" where
  "sorted_order phrase S = sorted_list_of_set S"

section \<open>Edit distance one\<close>

text \<open>
  The specification's notion of two strings at edit distance exactly 1: the second
  arises from the first by one insertion of a character, one deletion of a character or
  one substitution of a character by a different one.
\<close>

fun edit1 :: "string \<Rightarrow> string \<Rightarrow> bool" where
  "edit1 [] [] = False"
| "edit1 [] (y # ys) = (ys = [])"
| "edit1 (x # xs) [] = (xs = [])"
| "edit1 (x # xs) (y # ys) =
     (if x = y then edit1 xs ys else xs = ys \<or> xs = y # ys \<or> x # xs = ys)"

section \<open>Properties of the string primitives\<close>



















lemma parts_valid_iff: "parts_valid ts D \<longleftrightarrow> (\<forall>t\<in>set ts. lower t \<in> D)"
  by (induction ts) auto

lemma is_valid_phrase_iff:
  "is_valid_phrase p D \<longleftrightarrow> split p \<noteq> [] \<and> (\<forall>t\<in>set (split p). lower t \<in> D)"
  by (simp add: is_valid_phrase_def Let_def parts_valid_iff)


lemma split_from_eq_Nil: "split_from cur s = [] \<longleftrightarrow> cur = [] \<and> (\<forall>c\<in>set s. isspace c)"
  by (induction cur s rule: split_from.induct) auto

lemma split_eq_Nil: "split s = [] \<longleftrightarrow> (\<forall>c\<in>set s. isspace c)"
  by (simp add: split_def split_from_eq_Nil)

section \<open>Properties of the neighbor generator\<close>







lemma edit1_Cons_left: "edit1 (x # xs) xs"
  by (induction xs arbitrary: x) auto

lemma edit1_Cons_right: "edit1 xs (x # xs)"
  by (induction xs arbitrary: x) auto

lemma edit1_delete: "i < length s \<Longrightarrow> edit1 s (take i s @ drop (i + 1) s)"
proof (induction s arbitrary: i)
  case Nil
  then show ?case by simp
next
  case (Cons x xs)
  show ?case
  proof (cases i)
    case 0
    then show ?thesis by (simp add: edit1_Cons_left)
  next
    case (Suc j)
    with Cons show ?thesis by simp
  qed
qed

lemma edit1_substitute: "i < length s \<Longrightarrow> ch \<noteq> s ! i \<Longrightarrow> edit1 s (take i s @ ch # drop (i + 1) s)"
proof (induction s arbitrary: i)
  case Nil
  then show ?case by simp
next
  case (Cons x xs)
  show ?case
  proof (cases i)
    case 0
    with Cons.prems show ?thesis by auto
  next
    case (Suc j)
    with Cons show ?thesis by simp
  qed
qed

lemma edit1_insert: "i \<le> length s \<Longrightarrow> edit1 s (take i s @ ch # drop i s)"
proof (induction s arbitrary: i)
  case Nil
  then show ?case by simp
next
  case (Cons x xs)
  show ?case
  proof (cases i)
    case 0
    then show ?thesis using edit1_Cons_right [of "x # xs" ch] by simp
  next
    case (Suc j)
    with Cons show ?thesis by simp
  qed
qed

lemma in_get_neighbors:
  "x \<in> get_neighbors p D \<longleftrightarrow>
     x \<noteq> normalize_phrase p \<and>
     x \<in> insertions (lower p) D (substitutions (lower p) D (deletions (lower p) D {}))"
  by (auto simp: get_neighbors_def Let_def)






lemma edit1_shapes:
  "edit1 s t \<Longrightarrow>
     (\<exists>i<length s. t = take i s @ drop (i + 1) s) \<or>
     (\<exists>i<length s. \<exists>ch. ch \<noteq> s ! i \<and> t = take i s @ ch # drop (i + 1) s) \<or>
     (\<exists>i\<le>length s. \<exists>ch. t = take i s @ ch # drop i s)"
proof (induction s t rule: edit1.induct)
  case 1
  then show ?case by simp
next
  case (2 y ys)
  then show ?case by simp
next
  case (3 x xs)
  then show ?case by simp
next
  case (4 x xs y ys)
  show ?case
  proof (cases "x = y")
    case True
    with 4 consider
        (del) i where "i < length xs" "ys = take i xs @ drop (i + 1) xs"
      | (sub) i ch where "i < length xs" "ch \<noteq> xs ! i" "ys = take i xs @ ch # drop (i + 1) xs"
      | (ins) i ch where "i \<le> length xs" "ys = take i xs @ ch # drop i xs"
      by auto
    then show ?thesis
    proof cases
      case del
      then have "Suc i < length (x # xs) \<and> y # ys = take (Suc i) (x # xs) @ drop (Suc i + 1) (x # xs)"
        using True by simp
      then show ?thesis by blast
    next
      case sub
      then have "Suc i < length (x # xs) \<and> ch \<noteq> (x # xs) ! Suc i
          \<and> y # ys = take (Suc i) (x # xs) @ ch # drop (Suc i + 1) (x # xs)"
        using True by simp
      then show ?thesis by blast
    next
      case ins
      then have "Suc i \<le> length (x # xs) \<and> y # ys = take (Suc i) (x # xs) @ ch # drop (Suc i) (x # xs)"
        using True by simp
      then show ?thesis by blast
    qed
  next
    case False
    with 4(2) consider "xs = ys" | "xs = y # ys" | "x # xs = ys"
      by auto
    then show ?thesis
    proof cases
      case 1
      then have "0 < length (x # xs) \<and> y \<noteq> (x # xs) ! 0
          \<and> y # ys = take 0 (x # xs) @ y # drop (0 + 1) (x # xs)"
        using False by simp
      then show ?thesis by blast
    next
      case 2
      then have "0 < length (x # xs) \<and> y # ys = take 0 (x # xs) @ drop (0 + 1) (x # xs)"
        by simp
      then show ?thesis by blast
    next
      case 3
      then have "0 \<le> length (x # xs) \<and> y # ys = take 0 (x # xs) @ y # drop 0 (x # xs)"
        by simp
      then show ?thesis by blast
    qed
  qed
qed

text \<open>\<open>edit1\<close> is exactly the relation of one deletion, one substitution or one insertion.\<close>

lemma edit1_iff:
  "edit1 s t \<longleftrightarrow>
     (\<exists>i<length s. t = take i s @ drop (i + 1) s) \<or>
     (\<exists>i<length s. \<exists>ch. ch \<noteq> s ! i \<and> t = take i s @ ch # drop (i + 1) s) \<or>
     (\<exists>i\<le>length s. \<exists>ch. t = take i s @ ch # drop i s)"
  using edit1_shapes [of s t] edit1_delete [of _ s] edit1_substitute [of _ s] edit1_insert [of _ s]
  by blast

section \<open>Properties of the graph builder\<close>

lemma visit_visited_mono:
  "visited st n = Some d \<Longrightarrow> visited (visit cur cd x st) n = Some d"
  by (auto simp: visit_def split: option.split)

lemma fold_visit_visited_mono:
  "visited st n = Some d \<Longrightarrow> visited (fold (visit cur cd) xs st) n = Some d"
  by (induction xs arbitrary: st) (simp_all add: visit_visited_mono)

lemma step_visited_mono:
  "visited st n = Some d \<Longrightarrow> visited (step nbrs depth st) n = Some d"
  by (auto simp: step_def fold_visit_visited_mono split: list.split)

lemma funpow_step_visited_mono:
  "visited st n = Some d \<Longrightarrow> visited ((step nbrs depth ^^ j) st) n = Some d"
  by (induction j) (simp_all add: step_visited_mono)

lemma loop_funpow:
  "\<exists>k. loop nbrs depth st = (step nbrs depth ^^ k) st \<and> queue ((step nbrs depth ^^ k) st) = []"
proof (induction nbrs depth st rule: loop.induct)
  case (1 nbrs depth st)
  show ?case
  proof (cases "queue st = []")
    case True
    then have "loop nbrs depth st = (step nbrs depth ^^ 0) st \<and> queue ((step nbrs depth ^^ 0) st) = []"
      by (simp add: loop.simps)
    then show ?thesis by blast
  next
    case False
    with 1 obtain k where k: "loop nbrs depth (step nbrs depth st) = (step nbrs depth ^^ k) (step nbrs depth st)"
      "queue ((step nbrs depth ^^ k) (step nbrs depth st)) = []"
      by blast
    have "loop nbrs depth st = (step nbrs depth ^^ Suc k) st \<and> queue ((step nbrs depth ^^ Suc k) st) = []"
      using False k by (simp add: loop.simps [of nbrs depth st] funpow_swap1)
    then show ?thesis by blast
  qed
qed

lemma loop_invariant:
  assumes "P st" and "\<And>s. P s \<Longrightarrow> queue s \<noteq> [] \<Longrightarrow> P (step nbrs depth s)"
  shows "P (loop nbrs depth st)"
  using assms
proof (induction nbrs depth st rule: loop.induct)
  case (1 nbrs depth st)
  show ?case
  proof (cases "queue st = []")
    case True
    with 1 show ?thesis by (simp add: loop.simps)
  next
    case False
    have "P (loop nbrs depth (step nbrs depth st))"
      using 1 False by blast
    with False show ?thesis by (simp add: loop.simps [of nbrs depth st])
  qed
qed

lemma visit_layered:
  assumes e: "\<forall>(u, v)\<in>edges (G st). \<exists>d. visited st u = Some d \<and> visited st v = Some (d + 1)"
    and q: "\<forall>(n, d)\<in>set (queue st). visited st n = Some d"
    and c: "visited st cur = Some cd"
  shows "(\<forall>(u, v)\<in>edges (G (visit cur cd x st)).
            \<exists>d. visited (visit cur cd x st) u = Some d \<and> visited (visit cur cd x st) v = Some (d + 1))
         \<and> (\<forall>(n, d)\<in>set (queue (visit cur cd x st)). visited (visit cur cd x st) n = Some d)
         \<and> visited (visit cur cd x st) cur = Some cd"
proof (cases "visited st x")
  case None
  then have ne: "x \<noteq> cur" using c by auto
  have v: "visit cur cd x st = st\<lparr>visited := (visited st)(x \<mapsto> cd + 1),
             queue := queue st @ [(x, cd + 1)], G := add_edge (G st) cur x\<rparr>"
    by (simp add: visit_def None)
  have old: "visited st n = Some d \<Longrightarrow> ((visited st)(x \<mapsto> cd + 1)) n = Some d" for n d
    using None by auto
  show ?thesis
    unfolding v using e q c ne old by (fastforce simp: add_edge_def)
next
  case (Some dn)
  show ?thesis
  proof (cases "dn = cd + 1")
    case True
    then have v: "visit cur cd x st = st\<lparr>G := add_edge (G st) cur x\<rparr>"
      by (simp add: visit_def Some)
    show ?thesis
      unfolding v using e q c Some True by (auto simp: add_edge_def)
  next
    case False
    then have "visit cur cd x st = st"
      by (simp add: visit_def Some)
    with e q c show ?thesis by simp
  qed
qed

lemma fold_visit_layered:
  assumes "\<forall>(u, v)\<in>edges (G st). \<exists>d. visited st u = Some d \<and> visited st v = Some (d + 1)"
    and "\<forall>(n, d)\<in>set (queue st). visited st n = Some d"
    and "visited st cur = Some cd"
  shows "(\<forall>(u, v)\<in>edges (G (fold (visit cur cd) xs st)).
            \<exists>d. visited (fold (visit cur cd) xs st) u = Some d
               \<and> visited (fold (visit cur cd) xs st) v = Some (d + 1))
         \<and> (\<forall>(n, d)\<in>set (queue (fold (visit cur cd) xs st)).
               visited (fold (visit cur cd) xs st) n = Some d)"
  using assms
proof (induction xs arbitrary: st)
  case Nil
  then show ?case by simp
next
  case (Cons x xs)
  from visit_layered [OF Cons.prems, of x] Cons.IH [of "visit cur cd x st"]
  show ?case by simp
qed

lemma step_layered:
  assumes e: "\<forall>(u, v)\<in>edges (G st). \<exists>d. visited st u = Some d \<and> visited st v = Some (d + 1)"
    and q: "\<forall>(n, d)\<in>set (queue st). visited st n = Some d"
  shows "(\<forall>(u, v)\<in>edges (G (step nbrs depth st)).
            \<exists>d. visited (step nbrs depth st) u = Some d \<and> visited (step nbrs depth st) v = Some (d + 1))
         \<and> (\<forall>(n, d)\<in>set (queue (step nbrs depth st)). visited (step nbrs depth st) n = Some d)"
proof (cases "queue st")
  case Nil
  with e q show ?thesis by (simp add: step_def)
next
  case (Cons a rest)
  obtain cur cd where a: "a = (cur, cd)" by (cases a)
  show ?thesis
  proof (cases "depth \<le> cd")
    case True
    then have "step nbrs depth st = st\<lparr>queue := rest\<rparr>"
      by (simp add: step_def Cons a)
    with e q Cons show ?thesis by auto
  next
    case False
    let ?s = "st\<lparr>queue := rest, expanded := expanded st @ [cur]\<rparr>"
    have s: "step nbrs depth st = fold (visit cur cd) (nbrs cur) ?s"
      using False by (simp add: step_def Cons a)
    have "\<forall>(u, v)\<in>edges (G ?s). \<exists>d. visited ?s u = Some d \<and> visited ?s v = Some (d + 1)"
      using e by simp
    moreover have "\<forall>(n, d)\<in>set (queue ?s). visited ?s n = Some d"
      using q Cons by auto
    moreover have "visited ?s cur = Some cd"
      using q Cons a by auto
    ultimately show ?thesis
      unfolding s by (rule fold_visit_layered)
  qed
qed

lemma initial_layered:
  "(\<forall>(u, v)\<in>edges (G (initial_state p)).
      \<exists>d. visited (initial_state p) u = Some d \<and> visited (initial_state p) v = Some (d + 1))
   \<and> (\<forall>(n, d)\<in>set (queue (initial_state p)). visited (initial_state p) n = Some d)"
  by (simp add: initial_state_def add_node_def empty_graph_def)

lemma loop_layered:
  assumes "\<forall>(u, v)\<in>edges (G st). \<exists>d. visited st u = Some d \<and> visited st v = Some (d + 1)"
    and "\<forall>(n, d)\<in>set (queue st). visited st n = Some d"
  shows "\<forall>(u, v)\<in>edges (G (loop nbrs depth st)).
            \<exists>d. visited (loop nbrs depth st) u = Some d \<and> visited (loop nbrs depth st) v = Some (d + 1)"
proof -
  let ?P = "\<lambda>s::bfs_state. (\<forall>(u, v)\<in>edges (G s). \<exists>d. visited s u = Some d \<and> visited s v = Some (d + 1))
         \<and> (\<forall>(n, d)\<in>set (queue s). visited s n = Some d)"
  have "?P (loop nbrs depth st)"
  proof (rule loop_invariant [where P = ?P])
    show "?P st" using assms by simp
  next
    fix s :: bfs_state assume "?P s"
    then show "?P (step nbrs depth s)"
      using step_layered [of s nbrs depth] by blast
  qed
  then show ?thesis by simp
qed

lemma layered_acyclic:
  assumes "\<forall>(u, v)\<in>E. \<exists>d. vis u = Some d \<and> vis v = Some (d + (1::int))"
  shows "acyclic E"
proof (rule acyclicI_order [where f = "\<lambda>n. - the (vis n)"])
  fix a b assume "(a, b) \<in> E"
  with assms obtain d where "vis a = Some d" "vis b = Some (d + 1)"
    by blast
  then show "- the (vis b) < - the (vis a)"
    by simp
qed

lemma visit_once:
  assumes d: "distinct (expanded st @ map fst (queue st))"
    and s: "set (expanded st @ map fst (queue st)) \<subseteq> dom (visited st)"
  shows "distinct (expanded (visit cur cd x st) @ map fst (queue (visit cur cd x st)))
         \<and> set (expanded (visit cur cd x st) @ map fst (queue (visit cur cd x st)))
             \<subseteq> dom (visited (visit cur cd x st))"
proof (cases "visited st x")
  case None
  then have "x \<notin> set (expanded st @ map fst (queue st))"
    using s by auto
  with d s show ?thesis
    by (auto simp: visit_def None)
next
  case (Some dn)
  with d s show ?thesis
    by (auto simp: visit_def)
qed

lemma fold_visit_once:
  assumes "distinct (expanded st @ map fst (queue st))"
    and "set (expanded st @ map fst (queue st)) \<subseteq> dom (visited st)"
  shows "distinct (expanded (fold (visit cur cd) xs st) @ map fst (queue (fold (visit cur cd) xs st)))
         \<and> set (expanded (fold (visit cur cd) xs st) @ map fst (queue (fold (visit cur cd) xs st)))
             \<subseteq> dom (visited (fold (visit cur cd) xs st))"
  using assms
proof (induction xs arbitrary: st)
  case Nil
  then show ?case by simp
next
  case (Cons x xs)
  from visit_once [OF Cons.prems, of cur cd x] Cons.IH [of "visit cur cd x st"]
  show ?case by simp
qed

lemma step_once:
  assumes d: "distinct (expanded st @ map fst (queue st))"
    and s: "set (expanded st @ map fst (queue st)) \<subseteq> dom (visited st)"
  shows "distinct (expanded (step nbrs depth st) @ map fst (queue (step nbrs depth st)))
         \<and> set (expanded (step nbrs depth st) @ map fst (queue (step nbrs depth st)))
             \<subseteq> dom (visited (step nbrs depth st))"
proof (cases "queue st")
  case Nil
  with d s show ?thesis by (simp add: step_def)
next
  case (Cons a rest)
  obtain cur cd where a: "a = (cur, cd)" by (cases a)
  show ?thesis
  proof (cases "depth \<le> cd")
    case True
    then have "step nbrs depth st = st\<lparr>queue := rest\<rparr>"
      by (simp add: step_def Cons a)
    with d s Cons show ?thesis by auto
  next
    case False
    let ?s = "st\<lparr>queue := rest, expanded := expanded st @ [cur]\<rparr>"
    have st: "step nbrs depth st = fold (visit cur cd) (nbrs cur) ?s"
      using False by (simp add: step_def Cons a)
    have "distinct (expanded ?s @ map fst (queue ?s))"
      using d Cons a by simp
    moreover have "set (expanded ?s @ map fst (queue ?s)) \<subseteq> dom (visited ?s)"
      using s Cons a by auto
    ultimately show ?thesis
      unfolding st by (rule fold_visit_once)
  qed
qed

lemma loop_once:
  assumes "distinct (expanded st @ map fst (queue st))"
    and "set (expanded st @ map fst (queue st)) \<subseteq> dom (visited st)"
  shows "distinct (expanded (loop nbrs depth st))"
proof -
  let ?P = "\<lambda>s::bfs_state. distinct (expanded s @ map fst (queue s))
         \<and> set (expanded s @ map fst (queue s)) \<subseteq> dom (visited s)"
  have "?P (loop nbrs depth st)"
  proof (rule loop_invariant [where P = ?P])
    show "?P st" using assms by simp
  next
    fix s :: bfs_state assume "?P s"
    then show "?P (step nbrs depth s)"
      using step_once [of s nbrs depth] by blast
  qed
  then show ?thesis by simp
qed

lemma visit_finite:
  "finite (nodes (G st)) \<and> finite (edges (G st)) \<Longrightarrow>
   finite (nodes (G (visit cur cd x st))) \<and> finite (edges (G (visit cur cd x st)))"
  by (auto simp: visit_def add_edge_def split: option.split)

lemma fold_visit_finite:
  "finite (nodes (G st)) \<and> finite (edges (G st)) \<Longrightarrow>
   finite (nodes (G (fold (visit cur cd) xs st))) \<and> finite (edges (G (fold (visit cur cd) xs st)))"
proof (induction xs arbitrary: st)
  case Nil
  then show ?case by simp
next
  case (Cons x xs)
  from visit_finite [OF Cons.prems, of cur cd x] Cons.IH [of "visit cur cd x st"]
  show ?case by simp
qed

lemma step_finite:
  "finite (nodes (G st)) \<and> finite (edges (G st)) \<Longrightarrow>
   finite (nodes (G (step nbrs depth st))) \<and> finite (edges (G (step nbrs depth st)))"
  using fold_visit_finite [of "st\<lparr>queue := tl (queue st), expanded := expanded st @ [fst (hd (queue st))]\<rparr>"]
  by (auto simp: step_def split: list.split)

lemma loop_finite:
  assumes "finite (nodes (G st)) \<and> finite (edges (G st))"
  shows "finite (nodes (G (loop nbrs depth st))) \<and> finite (edges (G (loop nbrs depth st)))"
proof (rule loop_invariant [where P = "\<lambda>s::bfs_state. finite (nodes (G s)) \<and> finite (edges (G s))"])
  show "finite (nodes (G st)) \<and> finite (edges (G st))" by (rule assms)
next
  fix s :: bfs_state assume "finite (nodes (G s)) \<and> finite (edges (G s))"
  then show "finite (nodes (G (step nbrs depth s))) \<and> finite (edges (G (step nbrs depth s)))"
    by (rule step_finite)
qed

lemma loop_drain:
  "\<forall>(n, d)\<in>set (queue st). depth \<le> d \<Longrightarrow> G (loop nbrs depth st) = G st"
proof (induction nbrs depth st rule: loop.induct)
  case (1 nbrs depth st)
  show ?case
  proof (cases "queue st")
    case Nil
    then show ?thesis by (simp add: loop.simps)
  next
    case (Cons a rest)
    obtain cur cd where a: "a = (cur, cd)" by (cases a)
    have s: "step nbrs depth st = st\<lparr>queue := rest\<rparr>"
      using 1(2) by (simp add: step_def Cons a)
    have "G (loop nbrs depth (step nbrs depth st)) = G (step nbrs depth st)"
      using 1 Cons by (simp add: s)
    then show ?thesis
      using Cons by (simp add: loop.simps [of nbrs depth st] s)
  qed
qed

lemma depth_zero_graph:
  "depth \<le> 0 \<Longrightarrow> generate_graph order D p depth = \<lparr>nodes = {normalize_phrase p}, edges = {}\<rparr>"
  using loop_drain [of "initial_state (normalize_phrase p)" depth "ordered_neighbors order D"]
  by (simp add: generate_graph_def run_def initial_state_def add_node_def empty_graph_def)

lemma visit_fresh:
  assumes "visited st x = None \<or> visited st x = Some (cd + 1)"
  shows "edges (G (visit cur cd x st)) = insert (cur, x) (edges (G st))
       \<and> nodes (G (visit cur cd x st)) = insert x (insert cur (nodes (G st)))
       \<and> set (queue (visit cur cd x st)) \<subseteq> insert (x, cd + 1) (set (queue st))
       \<and> (\<forall>y. visited (visit cur cd x st) y = (if y = x then Some (cd + 1) else visited st y))"
  using assms by (auto simp: visit_def add_edge_def split: option.split)

lemma fold_visit_fresh:
  assumes "\<forall>x\<in>set xs. visited st x = None \<or> visited st x = Some (cd + 1)"
  shows "edges (G (fold (visit cur cd) xs st)) = edges (G st) \<union> {cur} \<times> set xs
       \<and> nodes (G (fold (visit cur cd) xs st))
           = nodes (G st) \<union> (if xs = [] then {} else insert cur (set xs))
       \<and> set (queue (fold (visit cur cd) xs st)) \<subseteq> set (queue st) \<union> set xs \<times> {cd + 1}"
  using assms
proof (induction xs arbitrary: st)
  case Nil
  then show ?case by simp
next
  case (Cons x xs)
  have x: "visited st x = None \<or> visited st x = Some (cd + 1)"
    using Cons.prems by simp
  note v = visit_fresh [OF x, of cur]
  have "\<forall>y\<in>set xs. visited (visit cur cd x st) y = None
          \<or> visited (visit cur cd x st) y = Some (cd + 1)"
    using Cons.prems v by simp
  from Cons.IH [OF this] v show ?case
    by (simp; blast)
qed

lemma depth_one_graph:
  assumes ne: "ordered_neighbors order D (normalize_phrase p) \<noteq> []"
    and nself: "normalize_phrase p \<notin> set (ordered_neighbors order D (normalize_phrase p))"
  shows "nodes (generate_graph order D p 1)
           = insert (normalize_phrase p) (set (ordered_neighbors order D (normalize_phrase p)))
       \<and> edges (generate_graph order D p 1)
           = {normalize_phrase p} \<times> set (ordered_neighbors order D (normalize_phrase p))"
proof -
  let ?np = "normalize_phrase p"
  let ?nbrs = "ordered_neighbors order D"
  let ?s0 = "initial_state ?np"
  let ?s1 = "?s0\<lparr>queue := [], expanded := expanded ?s0 @ [?np]\<rparr>"
  let ?s2 = "fold (visit ?np 0) (?nbrs ?np) ?s1"
  have step: "step ?nbrs 1 ?s0 = ?s2"
    by (simp add: step_def initial_state_def)
  have fresh: "\<forall>x\<in>set (?nbrs ?np). visited ?s1 x = None \<or> visited ?s1 x = Some (0 + 1)"
    using nself by (auto simp: initial_state_def)
  note f = fold_visit_fresh [OF fresh, of ?np]
  have "\<forall>(n, d)\<in>set (queue ?s2). 1 \<le> d"
    using f by (auto simp: initial_state_def)
  then have "G (loop ?nbrs 1 ?s2) = G ?s2"
    by (rule loop_drain)
  moreover have "loop ?nbrs 1 ?s0 = loop ?nbrs 1 ?s2"
    by (subst loop.simps) (simp add: step, simp add: initial_state_def)
  ultimately have "generate_graph order D p 1 = G ?s2"
    by (simp add: generate_graph_def run_def)
  with f ne show ?thesis
    by (auto simp: initial_state_def add_node_def empty_graph_def)
qed

lemma cat_neighbors:
  "get_neighbors ''Cat'' {''cat'', ''bat'', ''cot'', ''car'', ''at'', ''cats''}
     = {''At'', ''Bat'', ''Cot'', ''Car'', ''Cats''}"
  by code_simp

lemma times5: "{c} \<times> {a1, a2, a3, a4, a5} = {(c, a1), (c, a2), (c, a3), (c, a4), (c, a5)}"
  by auto

lemma cat_card_nodes: "card {''Cat'', ''At'', ''Bat'', ''Cot'', ''Car'', ''Cats''} = 6"
  by simp

lemma cat_card_edges:
  "card {(''Cat'', ''At''), (''Cat'', ''Bat''), (''Cat'', ''Cot''), (''Cat'', ''Car''), (''Cat'', ''Cats'')} = 5"
  by simp

lemma cat_normalized: "normalize_phrase ''Cat'' = ''Cat''"
  by code_simp

lemma cat_not_neighbor: "''Cat'' \<notin> {''At'', ''Bat'', ''Cot'', ''Car'', ''Cats''}"
  by simp

section \<open>The claims about the phrase normalizer\<close>



text \<open>
  C8. \<open>is_valid_phrase\<close> returns \<open>False\<close> when the split of the phrase has no token,
  which is the case exactly for the empty phrase and the phrases of whitespace only;
  otherwise it returns \<open>True\<close> if and only if the lower-case form of every token is in
  the dictionary. The function is total with a Boolean result: it has no failing path.
\<close>

theorem C8_is_valid_phrase:
  "(split p = [] \<longleftrightarrow> (\<forall>c\<in>set p. isspace c))
   \<and> (split p = [] \<longrightarrow> is_valid_phrase p D = False)
   \<and> (split p \<noteq> [] \<longrightarrow> is_valid_phrase p D = (\<forall>t\<in>set (split p). lower t \<in> D))"
  by (simp add: split_eq_Nil is_valid_phrase_iff)

theorem C8_is_valid_phrase_witness:
  "is_valid_phrase ''  '' {''cat''} = False
   \<and> is_valid_phrase ''Cat bAT'' {''cat'', ''bat''} = True
   \<and> is_valid_phrase ''Cat dog'' {''cat'', ''bat''} = False"
proof -
  have s1: "split ''  '' = []"
    by code_simp
  have s2: "split ''Cat bAT'' = [''Cat'', ''bAT'']" "split ''Cat dog'' = [''Cat'', ''dog'']"
    by code_simp+
  have l: "lower ''Cat'' = ''cat''" "lower ''bAT'' = ''bat''" "lower ''dog'' = ''dog''"
    by code_simp+
  show ?thesis
    using C8_is_valid_phrase [of "''  ''" "{''cat''}"]
      C8_is_valid_phrase [of "''Cat bAT''" "{''cat'', ''bat''}"]
      C8_is_valid_phrase [of "''Cat dog''" "{''cat'', ''bat''}"]
    by (simp add: s1 s2 l)
qed



section \<open>The claims about the neighbor generator\<close>

text \<open>
  C2. The normalized form of the input phrase is never an element of the set that
  \<open>get_neighbors\<close> returns.
\<close>

theorem C2_no_self_loop:
  "normalize_phrase p \<notin> get_neighbors p D"
  by (simp add: in_get_neighbors)

theorem C2_no_self_loop_witness:
  "''Cat'' \<notin> get_neighbors ''cat'' {''cat'', ''cot''}"
proof -
  have "normalize_phrase ''cat'' = ''Cat''"
    by code_simp
  with C2_no_self_loop [of "''cat''" "{''cat'', ''cot''}"] show ?thesis
    by simp
qed






section \<open>The claims about the graph builder\<close>

text \<open>
  C1. In the state in which \<open>generate_graph\<close> ends, every edge \<open>(u, v)\<close> of the graph
  goes from a node recorded at some depth \<open>d\<close> to a node recorded at depth \<open>d + 1\<close>, so
  that the edges form no cycle; and a depth that \<open>visited\<close> records for a node after
  \<open>k\<close> iterations of the loop is still the recorded depth after any number of further
  iterations. The final state is reached by finitely many iterations from the initial one.
\<close>

theorem C1_layering:
  "(\<forall>(u, v)\<in>edges (generate_graph order D p depth).
      \<exists>d. visited (run order D p depth) u = Some d \<and> visited (run order D p depth) v = Some (d + 1))
   \<and> acyclic (edges (generate_graph order D p depth))
   \<and> (visited ((step (ordered_neighbors order D) depth ^^ k) (initial_state (normalize_phrase p))) n = Some dn
        \<longrightarrow> visited ((step (ordered_neighbors order D) depth ^^ (j + k)) (initial_state (normalize_phrase p))) n = Some dn)
   \<and> (\<exists>m. run order D p depth
            = (step (ordered_neighbors order D) depth ^^ m) (initial_state (normalize_phrase p)))"
proof -
  let ?nbrs = "ordered_neighbors order D"
  let ?s0 = "initial_state (normalize_phrase p)"
  have lay: "\<forall>(u, v)\<in>edges (G (loop ?nbrs depth ?s0)).
      \<exists>d. visited (loop ?nbrs depth ?s0) u = Some d \<and> visited (loop ?nbrs depth ?s0) v = Some (d + 1)"
    using initial_layered [of "normalize_phrase p"] by (intro loop_layered) simp_all
  then have "acyclic (edges (G (loop ?nbrs depth ?s0)))"
    by (rule layered_acyclic)
  moreover have "visited ((step ?nbrs depth ^^ k) ?s0) n = Some dn
      \<longrightarrow> visited ((step ?nbrs depth ^^ (j + k)) ?s0) n = Some dn"
    by (simp add: funpow_add funpow_step_visited_mono)
  moreover have "\<exists>m. loop ?nbrs depth ?s0 = (step ?nbrs depth ^^ m) ?s0"
    using loop_funpow [of ?nbrs depth ?s0] by blast
  ultimately show ?thesis
    using lay by (simp add: generate_graph_def run_def)
qed

theorem C1_layering_witness:
  "(''A'', ''B'') \<in> edges (generate_graph sorted_order {''a'', ''b''} ''a'' 1)
   \<and> (\<exists>d. visited (run sorted_order {''a'', ''b''} ''a'' 1) ''A'' = Some d
          \<and> visited (run sorted_order {''a'', ''b''} ''a'' 1) ''B'' = Some (d + 1))
   \<and> acyclic (edges (generate_graph sorted_order {''a'', ''b''} ''a'' 1))
   \<and> visited ((step (ordered_neighbors sorted_order {''a'', ''b''}) 1 ^^ 2) (initial_state ''A'')) ''A'' = Some 0"
proof -
  have e: "(''A'', ''B'') \<in> edges (generate_graph sorted_order {''a'', ''b''} ''a'' 1)"
    by code_simp
  have np: "normalize_phrase ''a'' = ''A''"
    by code_simp
  have v0: "visited ((step (ordered_neighbors sorted_order {''a'', ''b''}) 1 ^^ 0) (initial_state ''A'')) ''A'' = Some 0"
    by (simp add: initial_state_def)
  note c = C1_layering [of sorted_order "{''a'', ''b''}" "''a''" 1 0 "''A''" 0 2, unfolded np]
  from c e have "\<exists>d. visited (run sorted_order {''a'', ''b''} ''a'' 1) ''A'' = Some d
          \<and> visited (run sorted_order {''a'', ''b''} ''a'' 1) ''B'' = Some (d + 1)"
    by blast
  moreover from c v0
  have "visited ((step (ordered_neighbors sorted_order {''a'', ''b''}) 1 ^^ 2) (initial_state ''A'')) ''A'' = Some 0"
    by simp
  ultimately show ?thesis
    using c e by blast
qed

text \<open>
  C5. For the dictionary \<open>{cat, bat, cot, car, at, cats}\<close>, \<open>get_neighbors\<close> of \<open>Cat\<close> is
  exactly \<open>{At, Bat, Cot, Car, Cats}\<close>, and the graph built from \<open>Cat\<close> with depth 1 has
  exactly the 6 nodes \<open>Cat\<close> and those five, and exactly 5 edges, each from \<open>Cat\<close> to
  one of the five. This holds for every order in which the loop goes through the set of
  neighbors, as long as it meets exactly the elements of the set.
\<close>

theorem C5_cat_scenario:
  assumes "\<And>q S. finite S \<Longrightarrow> set (order q S) = S"
  shows "get_neighbors ''Cat'' {''cat'', ''bat'', ''cot'', ''car'', ''at'', ''cats''}
           = {''At'', ''Bat'', ''Cot'', ''Car'', ''Cats''}
       \<and> nodes (generate_graph order {''cat'', ''bat'', ''cot'', ''car'', ''at'', ''cats''} ''Cat'' 1)
           = {''Cat'', ''At'', ''Bat'', ''Cot'', ''Car'', ''Cats''}
       \<and> card (nodes (generate_graph order {''cat'', ''bat'', ''cot'', ''car'', ''at'', ''cats''} ''Cat'' 1)) = 6
       \<and> edges (generate_graph order {''cat'', ''bat'', ''cot'', ''car'', ''at'', ''cats''} ''Cat'' 1)
           = {(''Cat'', ''At''), (''Cat'', ''Bat''), (''Cat'', ''Cot''), (''Cat'', ''Car''), (''Cat'', ''Cats'')}
       \<and> card (edges (generate_graph order {''cat'', ''bat'', ''cot'', ''car'', ''at'', ''cats''} ''Cat'' 1)) = 5"
proof -
  let ?D = "{''cat'', ''bat'', ''cot'', ''car'', ''at'', ''cats''}"
  let ?N = "{''At'', ''Bat'', ''Cot'', ''Car'', ''Cats''}"
  have on: "set (ordered_neighbors order ?D ''Cat'') = ?N"
    unfolding ordered_neighbors_def cat_neighbors by (rule assms) simp
  have ne: "ordered_neighbors order ?D (normalize_phrase ''Cat'') \<noteq> []"
  proof
    assume "ordered_neighbors order ?D (normalize_phrase ''Cat'') = []"
    then have "set (ordered_neighbors order ?D ''Cat'') = {}"
      by (simp only: cat_normalized list.set)
    then show False
      unfolding on by blast
  qed
  have nself: "normalize_phrase ''Cat'' \<notin> set (ordered_neighbors order ?D (normalize_phrase ''Cat''))"
    unfolding cat_normalized on by (rule cat_not_neighbor)
  note g = depth_one_graph [OF ne nself, unfolded cat_normalized on times5]
  from g have n: "nodes (generate_graph order ?D ''Cat'' 1) = {''Cat'', ''At'', ''Bat'', ''Cot'', ''Car'', ''Cats''}"
    by (rule conjunct1)
  from g have e: "edges (generate_graph order ?D ''Cat'' 1)
      = {(''Cat'', ''At''), (''Cat'', ''Bat''), (''Cat'', ''Cot''), (''Cat'', ''Car''), (''Cat'', ''Cats'')}"
    by (rule conjunct2)
  show ?thesis
    unfolding n e cat_card_nodes cat_card_edges cat_neighbors by (intro conjI refl)
qed

theorem C5_cat_scenario_witness:
  "get_neighbors ''Cat'' {''cat'', ''bat'', ''cot'', ''car'', ''at'', ''cats''}
           = {''At'', ''Bat'', ''Cot'', ''Car'', ''Cats''}
   \<and> nodes (generate_graph sorted_order {''cat'', ''bat'', ''cot'', ''car'', ''at'', ''cats''} ''Cat'' 1)
           = {''Cat'', ''At'', ''Bat'', ''Cot'', ''Car'', ''Cats''}
   \<and> card (nodes (generate_graph sorted_order {''cat'', ''bat'', ''cot'', ''car'', ''at'', ''cats''} ''Cat'' 1)) = 6
   \<and> edges (generate_graph sorted_order {''cat'', ''bat'', ''cot'', ''car'', ''at'', ''cats''} ''Cat'' 1)
           = {(''Cat'', ''At''), (''Cat'', ''Bat''), (''Cat'', ''Cot''), (''Cat'', ''Car''), (''Cat'', ''Cats'')}
   \<and> card (edges (generate_graph sorted_order {''cat'', ''bat'', ''cot'', ''car'', ''at'', ''cats''} ''Cat'' 1)) = 5"
proof -
  have "\<And>q (S::string set). finite S \<Longrightarrow> set (sorted_order q S) = S"
    by (simp add: sorted_order_def)
  then show ?thesis
    by (rule C5_cat_scenario [of sorted_order])
qed

text \<open>
  C6. With depth 0, whatever the start phrase, the dictionary and the iteration order,
  \<open>generate_graph\<close> returns the graph whose only node is the normalized start phrase and
  which has no edge.
\<close>

theorem C6_depth_zero:
  "generate_graph order D p 0 = \<lparr>nodes = {normalize_phrase p}, edges = {}\<rparr>
   \<and> card (nodes (generate_graph order D p 0)) = 1
   \<and> card (edges (generate_graph order D p 0)) = 0"
  by (simp add: depth_zero_graph)

theorem C6_depth_zero_witness:
  "generate_graph sorted_order {''cat'', ''cot''} ''cAT'' 0 = \<lparr>nodes = {''Cat''}, edges = {}\<rparr>"
proof -
  have np: "normalize_phrase ''cAT'' = ''Cat''"
    by code_simp
  from C6_depth_zero [of sorted_order "{''cat'', ''cot''}" "''cAT''"] show ?thesis
    by (simp add: np)
qed

text \<open>
  C9. For every dictionary, start phrase, depth bound and iteration order, the loop of
  \<open>generate_graph\<close> reaches an empty queue after finitely many iterations, and the state
  it returns is that one; the graph returned has finitely many nodes and edges; and no
  phrase occurs twice in the trace of the calls of \<open>get_neighbors\<close>.
\<close>

theorem C9_terminates:
  "(\<exists>k. queue ((step (ordered_neighbors order D) depth ^^ k) (initial_state (normalize_phrase p))) = []
        \<and> run order D p depth
            = (step (ordered_neighbors order D) depth ^^ k) (initial_state (normalize_phrase p)))
   \<and> finite (nodes (generate_graph order D p depth))
   \<and> finite (edges (generate_graph order D p depth))
   \<and> distinct (expanded (run order D p depth))"
proof -
  let ?nbrs = "ordered_neighbors order D"
  let ?s0 = "initial_state (normalize_phrase p)"
  have "\<exists>k. queue ((step ?nbrs depth ^^ k) ?s0) = [] \<and> loop ?nbrs depth ?s0 = (step ?nbrs depth ^^ k) ?s0"
    using loop_funpow [of ?nbrs depth ?s0] by blast
  moreover have "finite (nodes (G (loop ?nbrs depth ?s0))) \<and> finite (edges (G (loop ?nbrs depth ?s0)))"
    by (rule loop_finite) (simp add: initial_state_def add_node_def empty_graph_def)
  moreover have "distinct (expanded (loop ?nbrs depth ?s0))"
    by (rule loop_once) (simp_all add: initial_state_def)
  ultimately show ?thesis
    by (simp add: generate_graph_def run_def)
qed

theorem C9_terminates_witness:
  "queue (run sorted_order {''a'', ''b''} ''a'' 2) = []
   \<and> expanded (run sorted_order {''a'', ''b''} ''a'' 2) = [''A'', ''B'']
   \<and> distinct (expanded (run sorted_order {''a'', ''b''} ''a'' 2))
   \<and> finite (nodes (generate_graph sorted_order {''a'', ''b''} ''a'' 2))"
proof -
  have "queue (run sorted_order {''a'', ''b''} ''a'' 2) = []"
    "expanded (run sorted_order {''a'', ''b''} ''a'' 2) = [''A'', ''B'']"
    by code_simp+
  with C9_terminates [of sorted_order "{''a'', ''b''}" 2 "''a''"] show ?thesis
    by simp
qed

end
